theory Spec2Isabelle
  imports Complex_Main
begin

section \<open>Characters and strings of the OCR text\<close>

text \<open>
  A Python \<open>str\<close> is a sequence of code points. The model takes the code points below 256
  (Latin-1), one per \<open>char\<close>: the recogniser's whitelist, the letters the extractor
  rewrites and the degree sign \<open>U+00B0\<close> all lie there. The character classes below are
  the ones Python's \<open>re\<close> uses for \<open>str\<close> patterns, cut down to that range.
\<close>

definition degree_sign :: char where
  "degree_sign = CHR 0xB0"

definition is_digit :: "char \<Rightarrow> bool" where
  \<comment> \<open>\<open>\d\<close>: the decimal digits; below code point 256 these are \<open>0\<close> to \<open>9\<close>\<close>
  "is_digit c = (c \<in> set ''0123456789'')"

definition is_space :: "char \<Rightarrow> bool" where
  \<comment> \<open>\<open>\s\<close>: whitespace as \<open>str.isspace\<close> has it; below code point 256 these are
      tab to carriage return, the separators \<open>0x1C\<close> to \<open>0x1F\<close>, space, \<open>0x85\<close> and \<open>0xA0\<close>\<close>
  "is_space c = (c \<in> {CHR 0x09, CHR 0x0A, CHR 0x0B, CHR 0x0C, CHR 0x0D,
                        CHR 0x1C, CHR 0x1D, CHR 0x1E, CHR 0x1F, CHR 0x20,
                        CHR 0x85, CHR 0xA0})"

definition py_lower :: "char \<Rightarrow> char" where
  \<comment> \<open>lower-casing of a code point below 256: \<open>A-Z\<close> and the accented capitals
      \<open>0xC0-0xDE\<close> (without the multiplication sign \<open>0xD7\<close>) move up by 32\<close>
  "py_lower c =
     (let n = (of_char c :: nat)
      in if (65 \<le> n \<and> n \<le> 90) \<or> (192 \<le> n \<and> n \<le> 222 \<and> n \<noteq> 215)
         then char_of (n + 32) else c)"

definition str_replace :: "char \<Rightarrow> char \<Rightarrow> string \<Rightarrow> string" where
  \<comment> \<open>\<open>s.replace(old, new)\<close> for one-character \<open>old\<close> and \<open>new\<close>\<close>
  "str_replace old new s = map (\<lambda>c. if c = old then new else c) s"

section \<open>Regular expressions as the module uses them\<close>

text \<open>
  The six patterns of \<open>extract_numbers_from_text\<close> are built from single characters
  (\<open>\d\<close>, \<open>\s\<close>, a literal) under the greedy quantifiers \<open>?\<close>, \<open>*\<close> and \<open>+\<close>, with one
  capture group at the front. All are used with \<open>re.IGNORECASE\<close>, so a literal is
  compared after lower-casing.
\<close>

datatype atom = Digit | Space | Lit char

datatype item = One atom | Opt atom | Star atom | Plus atom

type_synonym pattern = "item list \<times> item list"
  \<comment> \<open>the capture group, then what follows it\<close>

fun atom_match :: "atom \<Rightarrow> char \<Rightarrow> bool" where
  "atom_match Digit c = is_digit c"
| "atom_match Space c = is_space c"
| "atom_match (Lit l) c = (py_lower c = py_lower l)"

text \<open>
  Backtracking is modelled by the list of all ways to match, in the order in which the
  engine tries them: each function returns the remainders of the text after a match, the
  engine's first choice first. A greedy quantifier tries the longest run first.
\<close>

fun star_run :: "atom \<Rightarrow> string \<Rightarrow> string list" where
  "star_run a [] = [[]]"
| "star_run a (c # cs) = (if atom_match a c then star_run a cs @ [c # cs] else [c # cs])"

fun item_run :: "item \<Rightarrow> string \<Rightarrow> string list" where
  "item_run (One a) [] = []"
| "item_run (One a) (c # cs) = (if atom_match a c then [cs] else [])"
| "item_run (Opt a) [] = [[]]"
| "item_run (Opt a) (c # cs) = (if atom_match a c then [cs, c # cs] else [c # cs])"
| "item_run (Star a) s = star_run a s"
| "item_run (Plus a) [] = []"
| "item_run (Plus a) (c # cs) = (if atom_match a c then star_run a cs else [])"

fun items_run :: "item list \<Rightarrow> string \<Rightarrow> string list" where
  "items_run [] s = [s]"
| "items_run (i # is) s = concat (map (items_run is) (item_run i s))"

definition match_at :: "pattern \<Rightarrow> string \<Rightarrow> (string \<times> string) option" where
  \<comment> \<open>the match starting at the head of \<open>s\<close>, if any: the text of group 1 and the
      text left after the whole match\<close>
  "match_at p s =
     (case concat (map (\<lambda>r1. map (\<lambda>r2. (take (length s - length r1) s, r2))
                                 (items_run (snd p) r1))
                       (items_run (fst p) s)) of
        [] \<Rightarrow> None
      | m # _ \<Rightarrow> Some m)"

text \<open>
  \<open>re.findall\<close> with one group: scan from the left, take the first position where the
  pattern matches, record group 1, go on after the match. The last branch is the engine's
  step after an empty match; no pattern of this module matches the empty string
  (lemma \<open>pattern_capture\<close> below), so it is never taken here.
\<close>

function findall :: "pattern \<Rightarrow> string \<Rightarrow> string list" where
  "findall p [] = (case match_at p [] of None \<Rightarrow> [] | Some (cap, rest) \<Rightarrow> [cap])"
| "findall p (c # cs) =
     (case match_at p (c # cs) of
        None \<Rightarrow> findall p cs
      | Some (cap, rest) \<Rightarrow>
          cap # (if length rest < length (c # cs) then findall p rest else findall p cs))"
  by pat_completeness auto
termination
  by (relation "measure (\<lambda>(p, s). length s)") auto

section \<open>Conversion of a match to a number\<close>

datatype py_exception = ValueError | Cv2Error | TesseractNotFoundError | TesseractError

definition digit_val :: "char \<Rightarrow> nat" where
  "digit_val c = of_char c - 48"

definition digits_val :: "string \<Rightarrow> nat" where
  "digits_val ds = foldl (\<lambda>n c. 10 * n + digit_val c) 0 ds"

text \<open>
  \<open>float(s)\<close> on decimal literals: an optional sign, then digits with an optional point
  (\<open>12\<close>, \<open>12.\<close>, \<open>12.5\<close>, \<open>.5\<close>). The value is the exact decimal value; rounding to the
  nearest double is not modelled. Python's \<open>float\<close> accepts further forms (an exponent,
  \<open>inf\<close>, \<open>nan\<close>, underscores, blanks around the number); each contains a character other
  than a sign, a digit or a point, and this model raises \<open>ValueError\<close> on them. So where
  the model returns a number, so does Python.
\<close>

definition float_abs :: "string \<Rightarrow> py_exception + rat" where
  "float_abs body =
     (let ip = takeWhile is_digit body; rest = dropWhile is_digit body
      in case rest of
           [] \<Rightarrow> if ip = [] then Inl ValueError else Inr (of_nat (digits_val ip))
         | c # fp \<Rightarrow>
             if c = CHR ''.'' \<and> list_all is_digit fp \<and> (ip \<noteq> [] \<or> fp \<noteq> [])
             then Inr (of_nat (digits_val ip) + of_nat (digits_val fp) / 10 ^ length fp)
             else Inl ValueError)"

fun py_float :: "string \<Rightarrow> py_exception + rat" where
  "py_float [] = Inl ValueError"
| "py_float (c # cs) =
     (if c = CHR ''-'' then map_sum id uminus (float_abs cs)
      else if c = CHR ''+'' then float_abs cs
      else float_abs (c # cs))"

section \<open>The OCR processor\<close>

record FullSwingOCR =
  config :: string

definition init :: FullSwingOCR where
  "init = \<lparr>config = ''--oem 3 --psm 6 -c tessedit_char_whitelist=0123456789.-+mph''
                       @ [degree_sign] @ ''ft/s''\<rparr>"

definition normalize_text :: "string \<Rightarrow> string" where
  \<comment> \<open>\<open>text.replace('O', '0').replace('o', '0').replace('l', '1').replace('I', '1')\<close>\<close>
  "normalize_text text =
     str_replace CHR ''I'' CHR ''1''
       (str_replace CHR ''l'' CHR ''1''
         (str_replace CHR ''o'' CHR ''0''
           (str_replace CHR ''O'' CHR ''0'' text)))"

definition number_group :: "item list" where
  \<comment> \<open>\<open>(\d+\.?\d*)\<close>\<close>
  "number_group = [Plus Digit, Opt (Lit CHR ''.''), Star Digit]"

definition pat_mph :: pattern where
  \<comment> \<open>\<open>(\d+\.?\d*)\s*mph\<close>\<close>
  "pat_mph = (number_group, [Star Space, One (Lit CHR ''m''), One (Lit CHR ''p''), One (Lit CHR ''h'')])"

definition pat_ft :: pattern where
  \<comment> \<open>\<open>(\d+\.?\d*)\s*ft\<close>\<close>
  "pat_ft = (number_group, [Star Space, One (Lit CHR ''f''), One (Lit CHR ''t'')])"

definition pat_deg :: pattern where
  \<comment> \<open>\<open>(\d+\.?\d*)\s*\<close> followed by the degree sign\<close>
  "pat_deg = (number_group, [Star Space, One (Lit degree_sign)])"

definition pat_rpm :: pattern where
  \<comment> \<open>\<open>(\d+\.?\d*)\s*rpm\<close>\<close>
  "pat_rpm = (number_group, [Star Space, One (Lit CHR ''r''), One (Lit CHR ''p''), One (Lit CHR ''m'')])"

definition pat_per_s :: pattern where
  \<comment> \<open>\<open>(\d+\.?\d*)\s*/s\<close>\<close>
  "pat_per_s = (number_group, [Star Space, One (Lit CHR ''/''), One (Lit CHR ''s'')])"

definition pat_any :: pattern where
  \<comment> \<open>\<open>(-?\d+\.?\d*)\<close>: any number, including a negative one\<close>
  "pat_any = (Opt (Lit CHR ''-'') # number_group, [])"

definition patterns :: "pattern list" where
  "patterns = [pat_mph, pat_ft, pat_deg, pat_rpm, pat_per_s, pat_any]"

definition append_float :: "string \<Rightarrow> rat list \<Rightarrow> rat list" where
  \<comment> \<open>the body of the inner loop: \<open>try: numbers.append(float(match))\<close>,
      \<open>except ValueError: continue\<close>\<close>
  "append_float m numbers = (case py_float m of Inr v \<Rightarrow> numbers @ [v] | Inl e \<Rightarrow> numbers)"

definition extract_numbers_from_text :: "FullSwingOCR \<Rightarrow> string \<Rightarrow> rat list \<times> FullSwingOCR" where
  \<comment> \<open>returns the list and the object as the call leaves it\<close>
  "extract_numbers_from_text self text0 =
     (let numbers = [];
          text = normalize_text text0;
          numbers = fold (\<lambda>pattern numbers. fold append_float (findall pattern text) numbers)
                         patterns numbers
      in (numbers, self))"


section \<open>Field mapping and confidence\<close>

text \<open>
  A Python \<open>dict\<close> keeps its keys in insertion order, each key once: an association list
  with distinct keys. \<open>dict_set\<close> is the assignment \<open>d[k] = v\<close>.
\<close>

type_synonym ('k, 'v) dict = "('k \<times> 'v) list"

fun dict_set :: "('k, 'v) dict \<Rightarrow> 'k \<Rightarrow> 'v \<Rightarrow> ('k, 'v) dict" where
  "dict_set [] k v = [(k, v)]"
| "dict_set ((k', v') # d) k v = (if k' = k then (k, v) # d else (k', v') # dict_set d k v)"

text \<open>
  The part of \<open>process_oled_display\<close> after the extraction, as functions of the list
  \<open>numbers\<close>: the dictionary literal and the score returned with it.
\<close>

definition oled_result :: "'a list \<Rightarrow> (string, 'a option) dict" where
  "oled_result numbers =
     [(''ball_speed'', if length numbers > 0 then Some (numbers ! 0) else None),
      (''club_head_speed'', if length numbers > 1 then Some (numbers ! 1) else None),
      (''carry_distance'', if length numbers > 2 then Some (numbers ! 2) else None),
      (''total_distance'', if length numbers > 3 then Some (numbers ! 3) else None)]"

definition oled_confidence :: "'a list \<Rightarrow> rat" where
  \<comment> \<open>\<open>len(numbers) / 4.0\<close>; a quotient by a power of two, exact in double arithmetic\<close>
  "oled_confidence numbers = of_nat (length numbers) / 4"

text \<open>The same part of \<open>process_ipad_display\<close>: the list \<open>fields\<close>, the loop, the score.\<close>

definition ipad_fields :: "string list" where
  "ipad_fields =
     [''ball_speed'', ''club_head_speed'', ''smash_factor'', ''carry_distance'',
      ''total_distance'', ''launch_angle'', ''spin_rate'', ''side_spin'',
      ''angle_of_attack'', ''club_path'', ''face_angle'', ''dynamic_loft'',
      ''impact_height'', ''impact_toe'', ''ball_height'', ''descent_angle'']"

definition ipad_result :: "'a list \<Rightarrow> (string, 'a option) dict" where
  "ipad_result numbers =
     fold (\<lambda>(i, field) result.
             dict_set result field (if length numbers > i then Some (numbers ! i) else None))
          (enumerate 0 ipad_fields) []"

definition ipad_confidence :: "'a list \<Rightarrow> rat" where
  \<comment> \<open>\<open>min(1.0, len(numbers) / len(fields))\<close>\<close>
  "ipad_confidence numbers = min 1 (of_nat (length numbers) / of_nat (length ipad_fields))"

section \<open>The pipeline\<close>

text \<open>
  OpenCV and Tesseract are outside the repository; the model takes them as an environment.
  \<open>imread\<close> returns \<open>None\<close> for a file it cannot decode, as \<open>cv2.imread\<close> does. The
  other image operations are total on a decoded image. \<open>scaled_width width height\<close> stands
  for \<open>int(width * (500 / height))\<close> in double arithmetic, and \<open>image_to_string\<close> for
  \<open>pytesseract.image_to_string\<close>, which returns the text or raises.
\<close>

record 'img environment =
  imread :: "string \<Rightarrow> 'img option"
  cvtColor :: "'img \<Rightarrow> 'img"
  bilateralFilter :: "'img \<Rightarrow> 'img"
  adaptiveThreshold :: "'img \<Rightarrow> 'img"
  morphologyEx :: "'img \<Rightarrow> 'img"
  shape :: "'img \<Rightarrow> nat \<times> nat"
  scaled_width :: "nat \<Rightarrow> nat \<Rightarrow> nat"
  resize :: "'img \<Rightarrow> nat \<times> nat \<Rightarrow> 'img"
  image_to_string :: "'img \<Rightarrow> string \<Rightarrow> py_exception + string"

definition class_name :: "py_exception \<Rightarrow> string" where
  \<comment> \<open>the Python class of each exception\<close>
  "class_name e =
     (case e of
        ValueError \<Rightarrow> ''ValueError''
      | Cv2Error \<Rightarrow> ''cv2.error''
      | TesseractNotFoundError \<Rightarrow> ''TesseractNotFoundError''
      | TesseractError \<Rightarrow> ''TesseractError'')"

definition preprocess_image :: "'img environment \<Rightarrow> FullSwingOCR \<Rightarrow> string \<Rightarrow> py_exception + 'img" where
  "preprocess_image env self image_path =
     (case imread env image_path of
        None \<Rightarrow> Inl Cv2Error  \<comment> \<open>\<open>cv2.cvtColor(None, ...)\<close> raises \<open>cv2.error\<close>\<close>
      | Some img \<Rightarrow>
          (let gray = cvtColor env img;
               filtered = bilateralFilter env gray;
               thresh = adaptiveThreshold env filtered;
               cleaned = morphologyEx env thresh;
               (height, width) = shape env cleaned
           in Inr (if height < 500
                   then resize env cleaned (scaled_width env width height, 500)
                   else cleaned)))"

type_synonym reading = "(string, rat option) dict \<times> string \<times> rat"

definition process_oled_display :: "'img environment \<Rightarrow> FullSwingOCR \<Rightarrow> string \<Rightarrow> py_exception + reading" where
  "process_oled_display env self image_path =
     (case preprocess_image env self image_path of
        Inl e \<Rightarrow> Inl e
      | Inr processed_img \<Rightarrow>
          (case image_to_string env processed_img (config self) of
             Inl e \<Rightarrow> Inl e
           | Inr text \<Rightarrow>
               (let numbers = fst (extract_numbers_from_text self text)
                in Inr (oled_result numbers, text, oled_confidence numbers))))"

definition process_ipad_display :: "'img environment \<Rightarrow> FullSwingOCR \<Rightarrow> string \<Rightarrow> py_exception + reading" where
  "process_ipad_display env self image_path =
     (case preprocess_image env self image_path of
        Inl e \<Rightarrow> Inl e
      | Inr processed_img \<Rightarrow>
          (case image_to_string env processed_img (config self) of
             Inl e \<Rightarrow> Inl e
           | Inr text \<Rightarrow>
               (let numbers = fst (extract_numbers_from_text self text)
                in Inr (ipad_result numbers, text, ipad_confidence numbers))))"

section \<open>The caller\<close>

text \<open>
  The view \<open>process_image\<close> from the OCR call on: the \<open>Shot\<close> row it fills and the
  response it returns. Of the \<open>Shot\<close> model the float fields and the processing metadata
  are kept; \<open>processing_errors\<close> holds the exception whose text the view stores.
\<close>

record shot =
  float_fields :: "string \<rightharpoonup> rat"
  processed :: bool
  processing_errors :: "py_exception option"
  confidence_score :: "rat option"

definition shot_float_fields :: "string list" where
  "shot_float_fields =
     [''ball_speed'', ''club_head_speed'', ''carry_distance'', ''total_distance'',
      ''smash_factor'', ''launch_angle'', ''spin_rate'', ''side_spin'',
      ''angle_of_attack'', ''club_path'', ''face_angle'', ''dynamic_loft'',
      ''impact_height'', ''impact_toe'', ''ball_height'', ''descent_angle'',
      ''apex_height'', ''hang_time'', ''offline'']"

datatype response =
    Extracted "(string, rat option) dict" rat string
      \<comment> \<open>status 200 with \<open>data\<close>, \<open>confidence\<close> and \<open>raw_text\<close>\<close>
  | Processing_failed py_exception
      \<comment> \<open>status 500 with the message \<open>Processing failed: ...\<close>\<close>

definition set_fields :: "(string, rat option) dict \<Rightarrow> shot \<Rightarrow> shot" where
  \<comment> \<open>the loop over \<open>data.items()\<close>: \<open>setattr\<close> for each value that is not \<open>None\<close>\<close>
  "set_fields data sh =
     fold (\<lambda>(field, v) sh.
             case v of
               None \<Rightarrow> sh
             | Some x \<Rightarrow>
                 if field \<in> set shot_float_fields
                 then sh\<lparr>float_fields := (float_fields sh)(field \<mapsto> x)\<rparr>
                 else sh)
          data sh"

definition process_image :: "'img environment \<Rightarrow> string \<Rightarrow> string \<Rightarrow> shot \<Rightarrow> response \<times> shot" where
  "process_image env display_type image_path sh =
     (let ocr_processor = init
      in case (if display_type = ''oled''
               then process_oled_display env ocr_processor image_path
               else process_ipad_display env ocr_processor image_path) of
           Inr (data, raw_text, confidence) \<Rightarrow>
             (let sh = set_fields data sh;
                  sh = sh\<lparr>processed := True, confidence_score := Some confidence\<rparr>
              in (Extracted data confidence raw_text, sh))
         | Inl e \<Rightarrow> (Processing_failed e, sh\<lparr>processing_errors := Some e\<rparr>))"

section \<open>A concrete environment\<close>

text \<open>
  An environment in which no file decodes, for evaluating the pipeline on an unreadable
  image. Its images are of type \<open>unit\<close>.
\<close>

definition no_image_env :: "unit environment" where
  "no_image_env =
     \<lparr>imread = (\<lambda>path. None), cvtColor = id, bilateralFilter = id, adaptiveThreshold = id,
      morphologyEx = id, shape = (\<lambda>img. (0, 0)), scaled_width = (\<lambda>width height. 0),
      resize = (\<lambda>img size. img), image_to_string = (\<lambda>img cfg. Inr [])\<rparr>"

section \<open>Predicates used in the proofs\<close>

text \<open>The shape of a decimal numeral: digits, an optional point, digits.\<close>

definition numeral_shape :: "string \<Rightarrow> bool" where
  "numeral_shape w = (\<exists>d1 d2. d1 \<noteq> [] \<and> list_all is_digit d1 \<and> list_all is_digit d2 \<and>
     (w = d1 @ d2 \<or> w = d1 @ CHR ''.'' # d2))"

section \<open>Properties of the matcher\<close>

lemma py_lower_dot: "py_lower c = CHR ''.'' \<longleftrightarrow> c = CHR ''.''"
proof
  assume h: "py_lower c = CHR ''.''"
  show "c = CHR ''.''"
  proof (rule ccontr)
    assume n: "c \<noteq> CHR ''.''"
    with h have up: "char_of ((of_char c :: nat) + 32) = CHR ''.''"
      and rng: "(65 \<le> (of_char c :: nat) \<and> (of_char c :: nat) \<le> 90) \<or> (192 \<le> (of_char c :: nat) \<and> (of_char c :: nat) \<le> 222 \<and> (of_char c :: nat) \<noteq> 215)"
      by (auto simp: py_lower_def Let_def split: if_splits)
    from up have "(of_char (char_of ((of_char c :: nat) + 32)) :: nat) = of_char CHR ''.''" by simp
    then have "((of_char c :: nat) + 32) mod 256 = 46" by simp
    moreover from rng have "(of_char c :: nat) + 32 < 256" by linarith
    ultimately have "(of_char c :: nat) + 32 = 46" by simp
    with rng show False by linarith
  qed
next
  assume "c = CHR ''.''" then show "py_lower c = CHR ''.''" by (simp add: py_lower_def)
qed

lemma star_run_prefix:
  "r \<in> set (star_run a s) \<Longrightarrow> \<exists>pre. s = pre @ r \<and> list_all (atom_match a) pre"
proof (induction s)
  case Nil
  then show ?case by simp
next
  case (Cons c cs)
  show ?case
  proof (cases "r = c # cs")
    case True
    then show ?thesis by simp
  next
    case False
    with Cons.prems have m: "atom_match a c" and "r \<in> set (star_run a cs)"
      by (auto split: if_splits)
    then obtain pre where "cs = pre @ r" "list_all (atom_match a) pre"
      using Cons.IH by blast
    with m have "c # cs = (c # pre) @ r \<and> list_all (atom_match a) (c # pre)" by simp
    then show ?thesis by blast
  qed
qed


lemma py_lower_minus: "py_lower c = CHR ''-'' \<longleftrightarrow> c = CHR ''-''"
proof
  assume h: "py_lower c = CHR ''-''"
  show "c = CHR ''-''"
  proof (rule ccontr)
    assume n: "c \<noteq> CHR ''-''"
    with h have up: "char_of ((of_char c :: nat) + 32) = CHR ''-''"
      and rng: "(65 \<le> (of_char c :: nat) \<and> (of_char c :: nat) \<le> 90) \<or> (192 \<le> (of_char c :: nat) \<and> (of_char c :: nat) \<le> 222 \<and> (of_char c :: nat) \<noteq> 215)"
      by (auto simp: py_lower_def Let_def split: if_splits)
    from up have "(of_char (char_of ((of_char c :: nat) + 32)) :: nat) = of_char CHR ''-''" by simp
    then have "((of_char c :: nat) + 32) mod 256 = 45" by simp
    moreover from rng have "(of_char c :: nat) + 32 < 256" by linarith
    ultimately have "(of_char c :: nat) + 32 = 45" by simp
    with rng show False by linarith
  qed
next
  assume "c = CHR ''-''" then show "py_lower c = CHR ''-''" by (simp add: py_lower_def)
qed

lemma lower_dot_self: "py_lower CHR ''.'' = CHR ''.''"
  by (simp add: py_lower_def)

lemma lower_minus_self: "py_lower CHR ''-'' = CHR ''-''"
  by (simp add: py_lower_def)

lemma match_dot: "atom_match (Lit CHR ''.'') c \<longleftrightarrow> c = CHR ''.''"
  by (simp add: py_lower_dot lower_dot_self)

lemma match_minus: "atom_match (Lit CHR ''-'') c \<longleftrightarrow> c = CHR ''-''"
  by (simp add: py_lower_minus lower_minus_self)

lemma atom_match_Digit: "atom_match Digit = is_digit"
  by (rule ext) simp

lemma item_run_suffix:
  assumes r: "r \<in> set (item_run i s)"
  shows "\<exists>pre. s = pre @ r"
proof (cases i)
  case (One a)
  with r show ?thesis by (cases s) (auto split: if_splits)
next
  case (Opt a)
  with r show ?thesis by (cases s) (auto split: if_splits)
next
  case (Star a)
  with r show ?thesis using star_run_prefix [of r a s] by auto
next
  case (Plus a)
  show ?thesis
  proof (cases s)
    case Nil
    with Plus r show ?thesis by simp
  next
    case (Cons c cs)
    with Plus r have "r \<in> set (star_run a cs)" by (auto split: if_splits)
    then obtain pre where "cs = pre @ r" using star_run_prefix by blast
    with Cons have "s = (c # pre) @ r" by simp
    then show ?thesis by blast
  qed
qed

lemma items_run_suffix: "r \<in> set (items_run is s) \<Longrightarrow> \<exists>pre. s = pre @ r"
proof (induction "is" arbitrary: s)
  case Nil
  then show ?case by simp
next
  case (Cons i "is")
  then obtain r1 where r1: "r1 \<in> set (item_run i s)" and r: "r \<in> set (items_run is r1)"
    by auto
  from r1 obtain p1 where "s = p1 @ r1" using item_run_suffix by blast
  moreover from r obtain p2 where "r1 = p2 @ r" using Cons.IH by blast
  ultimately have "s = (p1 @ p2) @ r" by simp
  then show ?case by blast
qed

lemma plus_run_prefix:
  assumes "r \<in> set (item_run (Plus a) s)"
  shows "\<exists>pre. s = pre @ r \<and> pre \<noteq> [] \<and> list_all (atom_match a) pre"
proof (cases s)
  case Nil
  with assms show ?thesis by simp
next
  case (Cons c cs)
  with assms have m: "atom_match a c" and "r \<in> set (star_run a cs)" by (auto split: if_splits)
  then obtain pre where "cs = pre @ r" "list_all (atom_match a) pre"
    using star_run_prefix by blast
  with m Cons have "s = (c # pre) @ r \<and> c # pre \<noteq> [] \<and> list_all (atom_match a) (c # pre)" by simp
  then show ?thesis by blast
qed

lemma opt_run_prefix:
  assumes "r \<in> set (item_run (Opt a) s)"
  shows "r = s \<or> (\<exists>c. s = c # r \<and> atom_match a c)"
  using assms by (cases s) (auto split: if_splits)

lemma number_group_shape:
  assumes "r \<in> set (items_run number_group s)"
  shows "\<exists>w. s = w @ r \<and> numeral_shape w"
proof -
  from assms obtain r1 r2 where r1: "r1 \<in> set (item_run (Plus Digit) s)"
    and r2: "r2 \<in> set (item_run (Opt (Lit CHR ''.'')) r1)"
    and r3: "r \<in> set (star_run Digit r2)"
    by (auto simp: number_group_def)
  from r1 obtain d1 where d1: "s = d1 @ r1" "d1 \<noteq> []" "list_all is_digit d1"
    using plus_run_prefix [of r1 Digit s] by (auto simp: atom_match_Digit)
  from r3 obtain d2 where d2: "r2 = d2 @ r" "list_all is_digit d2"
    using star_run_prefix [of r Digit r2] by (auto simp: atom_match_Digit)
  from r2 have "r2 = r1 \<or> r1 = CHR ''.'' # r2"
    using opt_run_prefix [of r2 "Lit CHR ''.''" r1] unfolding match_dot by auto
  then show ?thesis
  proof
    assume "r2 = r1"
    with d1 d2 have "s = (d1 @ d2) @ r" by simp
    moreover from d1 d2 have "numeral_shape (d1 @ d2)" unfolding numeral_shape_def by blast
    ultimately show ?thesis by blast
  next
    assume "r1 = CHR ''.'' # r2"
    with d1 d2 have "s = (d1 @ CHR ''.'' # d2) @ r" by simp
    moreover from d1 d2 have "numeral_shape (d1 @ CHR ''.'' # d2)" unfolding numeral_shape_def by blast
    ultimately show ?thesis by blast
  qed
qed

lemma not_digit_dot: "\<not> is_digit CHR ''.''"
  by (simp add: is_digit_def)

lemma float_abs_digits:
  assumes "d \<noteq> []" "list_all is_digit d"
  shows "float_abs d = Inr (of_nat (digits_val d))"
proof -
  from assms(2) have tw: "takeWhile is_digit d = d" and dw: "dropWhile is_digit d = []"
    by (simp_all add: list_all_iff)
  show ?thesis unfolding float_abs_def tw dw Let_def using assms(1) by simp
qed

lemma float_abs_point:
  assumes "d1 \<noteq> []" "list_all is_digit d1" "list_all is_digit d2"
  shows "float_abs (d1 @ CHR ''.'' # d2) =
         Inr (of_nat (digits_val d1) + of_nat (digits_val d2) / 10 ^ length d2)"
proof -
  from assms(2) have tw: "takeWhile is_digit (d1 @ CHR ''.'' # d2) = d1"
    by (simp add: list_all_iff takeWhile_append2 not_digit_dot)
  from assms(2) have dw: "dropWhile is_digit (d1 @ CHR ''.'' # d2) = CHR ''.'' # d2"
    by (simp add: list_all_iff dropWhile_append2 not_digit_dot)
  show ?thesis unfolding float_abs_def tw dw Let_def using assms by simp
qed

lemma float_abs_shape: "numeral_shape w \<Longrightarrow> \<exists>v. float_abs w = Inr v"
  unfolding numeral_shape_def
  by (metis float_abs_digits float_abs_point append_is_Nil_conv list_all_append)

lemma shape_head: "numeral_shape w \<Longrightarrow> \<exists>c cs. w = c # cs \<and> is_digit c"
  unfolding numeral_shape_def by (cases w) (auto simp: Cons_eq_append_conv neq_Nil_conv)

lemma py_float_digit_head: "is_digit c \<Longrightarrow> py_float (c # cs) = float_abs (c # cs)"
  by (auto simp: is_digit_def)

lemma py_float_shape: "numeral_shape w \<Longrightarrow> \<exists>v. py_float w = Inr v"
  using float_abs_shape [of w] shape_head [of w] py_float_digit_head by metis

lemma py_float_minus_shape: "numeral_shape w \<Longrightarrow> \<exists>v. py_float (CHR ''-'' # w) = Inr v"
  using float_abs_shape [of w] by auto


lemma match_at_SomeD:
  assumes "match_at p s = Some (cap, rest)"
  shows "\<exists>r1. r1 \<in> set (items_run (fst p) s) \<and> rest \<in> set (items_run (snd p) r1) \<and>
              cap = take (length s - length r1) s"
proof -
  let ?all = "concat (map (\<lambda>r1. map (\<lambda>r2. (take (length s - length r1) s, r2))
                 (items_run (snd p) r1)) (items_run (fst p) s))"
  from assms obtain ms where "?all = (cap, rest) # ms"
    by (auto simp: match_at_def split: list.splits)
  then have "(cap, rest) \<in> set ?all" by (metis list.set_intros(1))
  then show ?thesis by auto
qed

lemma group_capture:
  assumes "match_at (g, sfx) s = Some (cap, rest)"
  shows "\<exists>r1. r1 \<in> set (items_run g s) \<and> s = cap @ r1 \<and> length rest \<le> length r1"
proof -
  from match_at_SomeD [OF assms] obtain r1 where r1: "r1 \<in> set (items_run g s)"
    and rest: "rest \<in> set (items_run sfx r1)" and cap: "cap = take (length s - length r1) s"
    by auto
  from r1 obtain pre where pre: "s = pre @ r1" using items_run_suffix by blast
  from rest obtain pre2 where "r1 = pre2 @ rest" using items_run_suffix by blast
  then have "length rest \<le> length r1" by simp
  moreover from pre cap have "cap = pre" by simp
  ultimately show ?thesis using r1 pre by blast
qed

lemma number_capture:
  assumes "match_at (number_group, sfx) s = Some (cap, rest)"
  shows "numeral_shape cap \<and> length rest < length s"
proof -
  from group_capture [OF assms] obtain r1 where r1: "r1 \<in> set (items_run number_group s)"
    and s: "s = cap @ r1" and le: "length rest \<le> length r1" by blast
  from number_group_shape [OF r1] obtain w where w: "s = w @ r1" "numeral_shape w" by blast
  with s have "cap = w" by simp
  moreover from w(2) have "w \<noteq> []" using shape_head by blast
  ultimately show ?thesis using w s le by (cases cap) auto
qed

lemma signed_capture:
  assumes "match_at (Opt (Lit CHR ''-'') # number_group, sfx) s = Some (cap, rest)"
  shows "(numeral_shape cap \<or> (\<exists>w. cap = CHR ''-'' # w \<and> numeral_shape w)) \<and> length rest < length s"
proof -
  from group_capture [OF assms] obtain r1
    where r1: "r1 \<in> set (items_run (Opt (Lit CHR ''-'') # number_group) s)"
    and s: "s = cap @ r1" and le: "length rest \<le> length r1" by blast
  from r1 obtain r0 where r0: "r0 \<in> set (item_run (Opt (Lit CHR ''-'')) s)"
    and r1': "r1 \<in> set (items_run number_group r0)" by auto
  from number_group_shape [OF r1'] obtain w where w: "r0 = w @ r1" "numeral_shape w" by blast
  from w(2) have ne: "w \<noteq> []" using shape_head by blast
  from r0 have "r0 = s \<or> s = CHR ''-'' # r0"
    using opt_run_prefix [of r0 "Lit CHR ''-''" s] unfolding match_minus by auto
  then show ?thesis
  proof
    assume "r0 = s"
    with w s have "cap = w" by simp
    with w ne s le show ?thesis by (cases cap) auto
  next
    assume "s = CHR ''-'' # r0"
    with w s have "cap = CHR ''-'' # w" by simp
    with w s le show ?thesis by auto
  qed
qed

lemma pattern_capture:
  assumes "p \<in> set patterns" "match_at p s = Some (cap, rest)"
  shows "(\<exists>v. py_float cap = Inr v) \<and> length rest < length s"
proof (cases "p = pat_any")
  case True
  with assms(2) signed_capture [of "[]" s cap rest]
  have "(numeral_shape cap \<or> (\<exists>w. cap = CHR ''-'' # w \<and> numeral_shape w)) \<and> length rest < length s"
    by (simp add: pat_any_def)
  then show ?thesis using py_float_shape py_float_minus_shape by blast
next
  case False
  with assms(1) obtain sfx where "p = (number_group, sfx)"
    by (auto simp: patterns_def pat_mph_def pat_ft_def pat_deg_def pat_rpm_def pat_per_s_def)
  with assms(2) number_capture [of sfx s cap rest]
  have "numeral_shape cap \<and> length rest < length s" by simp
  then show ?thesis using py_float_shape by blast
qed

lemma findall_matches:
  "m \<in> set (findall p s) \<Longrightarrow> \<exists>s' rest. match_at p s' = Some (m, rest)"
proof (induction p s rule: findall.induct)
  case (1 p)
  show ?case
  proof (cases "match_at p []")
    case None
    with 1 show ?thesis by simp
  next
    case (Some a)
    with 1 have "a = (m, snd a)" by (cases a) auto
    with Some show ?thesis by metis
  qed
next
  case (2 p c cs)
  show ?case
  proof (cases "match_at p (c # cs)")
    case None
    with 2 show ?thesis by simp
  next
    case (Some a)
    obtain cap rest where a: "a = (cap, rest)" by (cases a)
    show ?thesis
    proof (cases "m = cap")
      case True
      with Some a show ?thesis by blast
    next
      case False
      show ?thesis
      proof (cases "length rest < length (c # cs)")
        case True
        with 2(2)[OF Some a [symmetric] True] 2(4) Some a False show ?thesis by simp
      next
        case no: False
        with 2(3)[OF Some a [symmetric] no] 2(4) Some a False show ?thesis by simp
      qed
    qed
  qed
qed

lemma findall_converts:
  assumes "p \<in> set patterns" "m \<in> set (findall p s)"
  shows "\<exists>v. py_float m = Inr v"
  using findall_matches [OF assms(2)] pattern_capture [OF assms(1)] by blast

lemma fold_append_float:
  "(\<And>m. m \<in> set ms \<Longrightarrow> \<exists>v. py_float m = Inr v) \<Longrightarrow>
   map Inr (fold append_float ms numbers) = map Inr numbers @ map py_float ms"
proof (induction ms arbitrary: numbers)
  case Nil
  then show ?case by simp
next
  case (Cons m ms)
  from Cons.prems obtain v where v: "py_float m = Inr v" by auto
  have "map Inr (fold append_float ms (numbers @ [v])) = map Inr (numbers @ [v]) @ map py_float ms"
    using Cons.IH Cons.prems by simp
  moreover have "append_float m numbers = numbers @ [v]"
    using v by (simp add: append_float_def)
  ultimately show ?case using v by simp
qed

lemma fold_patterns:
  "set ps \<subseteq> set patterns \<Longrightarrow>
   map Inr (fold (\<lambda>pattern numbers. fold append_float (findall pattern t) numbers) ps numbers)
   = map Inr numbers @ concat (map (\<lambda>p. map py_float (findall p t)) ps)"
proof (induction ps arbitrary: numbers)
  case Nil
  then show ?case by simp
next
  case (Cons p ps)
  have "map Inr (fold append_float (findall p t) numbers) = map Inr numbers @ map py_float (findall p t)"
    using Cons.prems findall_converts [of p] by (intro fold_append_float) auto
  moreover have "map Inr (fold (\<lambda>pattern numbers. fold append_float (findall pattern t) numbers) ps
                      (fold append_float (findall p t) numbers))
     = map Inr (fold append_float (findall p t) numbers) @ concat (map (\<lambda>p. map py_float (findall p t)) ps)"
    using Cons.IH Cons.prems by simp
  ultimately show ?case by simp
qed

lemma extract_concat:
  "map Inr (fst (extract_numbers_from_text self text)) =
   concat (map (\<lambda>p. map py_float (findall p (normalize_text text))) patterns)"
  using fold_patterns [of patterns "normalize_text text" "[]"]
  by (simp add: extract_numbers_from_text_def Let_def)

section \<open>The generic pattern on digits and points\<close>

lemma normalize_text_id:
  assumes "\<And>x. x \<in> set t \<Longrightarrow> is_digit x \<or> x = CHR ''.''"
  shows "normalize_text t = t"
proof -
  have "\<And>x. x \<in> set t \<Longrightarrow> x \<noteq> CHR ''O'' \<and> x \<noteq> CHR ''o'' \<and> x \<noteq> CHR ''l'' \<and> x \<noteq> CHR ''I''"
    using assms by (fastforce simp: is_digit_def)
  then have "\<And>old new. old \<in> {CHR ''O'', CHR ''o'', CHR ''l'', CHR ''I''} \<Longrightarrow> str_replace old new t = t"
    unfolding str_replace_def by (intro map_idI) auto
  then show ?thesis by (simp add: normalize_text_def)
qed

lemma one_run_none:
  "(\<And>x. x \<in> set s \<Longrightarrow> \<not> atom_match a x) \<Longrightarrow> item_run (One a) s = []"
  by (cases s) auto

lemma unit_suffix_none:
  assumes "\<And>x. x \<in> set s \<Longrightarrow> \<not> atom_match a x"
  shows "items_run (Star b # One a # is) s = []"
proof -
  have "items_run (One a # is) r = []" if "r \<in> set (star_run b s)" for r
  proof -
    from that obtain pre where "s = pre @ r" using star_run_prefix by blast
    with assms have "\<And>x. x \<in> set r \<Longrightarrow> \<not> atom_match a x" by auto
    then show ?thesis using one_run_none [of r a] by simp
  qed
  then show ?thesis by (simp del: items_run.simps(2) add: items_run.simps(2) [of "Star b"])
qed

lemma unit_match_none:
  assumes "\<And>x. x \<in> set s \<Longrightarrow> \<not> atom_match a x"
  shows "match_at (g, Star b # One a # is) s = None"
proof -
  have "items_run (Star b # One a # is) r1 = []" if "r1 \<in> set (items_run g s)" for r1
  proof -
    from that obtain pre where "s = pre @ r1" using items_run_suffix by blast
    with assms have "\<And>x. x \<in> set r1 \<Longrightarrow> \<not> atom_match a x" by auto
    then show ?thesis by (rule unit_suffix_none)
  qed
  then have eq: "concat (map (\<lambda>r1. map (\<lambda>r2. (take (length s - length r1) s, r2))
                 (items_run (Star b # One a # is) r1)) (items_run g s)) = []"
    by (simp del: items_run.simps)
  show ?thesis by (simp only: match_at_def fst_conv snd_conv eq list.case)
qed

lemma unit_findall_none:
  "(\<And>x. x \<in> set s \<Longrightarrow> \<not> atom_match a x) \<Longrightarrow> findall (g, Star b # One a # is) s = []"
proof (induction s)
  case Nil
  then show ?case using unit_match_none [of "[]" a g b "is"] by simp
next
  case (Cons c cs)
  have "match_at (g, Star b # One a # is) (c # cs) = None"
    using Cons.prems by (intro unit_match_none) auto
  moreover have "findall (g, Star b # One a # is) cs = []"
    using Cons by auto
  ultimately show ?case by simp
qed

lemma concat_map_head:
  "xs = x # xs' \<Longrightarrow> f x = y # ys \<Longrightarrow> \<exists>others. concat (map f xs) = y # others"
  by simp

lemma star_run_greedy:
  assumes "list_all (atom_match a) ds" "r = [] \<or> \<not> atom_match a (hd r)"
  shows "\<exists>others. star_run a (ds @ r) = r # others"
  using assms
proof (induction ds)
  case Nil
  then show ?case by (cases r) auto
next
  case (Cons d ds)
  then obtain others where "star_run a (ds @ r) = r # others" by auto
  with Cons.prems show ?case by simp
qed

lemma items_run_last: "concat (map (items_run []) xs) = xs"
  by (induction xs) auto

lemma number_group_point:
  assumes "d1 \<noteq> []" "list_all is_digit d1" "list_all is_digit d2" "r = [] \<or> \<not> is_digit (hd r)"
  shows "\<exists>others. items_run number_group (d1 @ CHR ''.'' # d2 @ r) = r # others"
proof -
  from assms(1) obtain c cs where d1: "d1 = c # cs" by (cases d1) auto
  with assms(2) have c: "is_digit c" and cs: "list_all (atom_match Digit) cs"
    by (simp_all add: atom_match_Digit)
  have "\<exists>others. star_run Digit (cs @ (CHR ''.'' # d2 @ r)) = (CHR ''.'' # d2 @ r) # others"
    using cs by (intro star_run_greedy) (simp_all add: not_digit_dot)
  then obtain m1 where m1: "item_run (Plus Digit) (d1 @ CHR ''.'' # d2 @ r) = (CHR ''.'' # d2 @ r) # m1"
    using d1 c by auto
  have "\<exists>others. star_run Digit (d2 @ r) = r # others"
    using assms(3,4) by (intro star_run_greedy) (simp_all add: atom_match_Digit)
  then obtain m2 where m2: "star_run Digit (d2 @ r) = r # m2" by blast
  have m3: "items_run [Opt (Lit CHR ''.''), Star Digit] (CHR ''.'' # d2 @ r) = r # m2 @ items_run [Star Digit] (CHR ''.'' # d2 @ r)"
    using m2 by (simp add: lower_dot_self not_digit_dot items_run_last del: star_run.simps)
  have "items_run number_group (d1 @ CHR ''.'' # d2 @ r) =
        concat (map (items_run [Opt (Lit CHR ''.''), Star Digit]) (item_run (Plus Digit) (d1 @ CHR ''.'' # d2 @ r)))"
    by (simp only: number_group_def items_run.simps(2))
  with m1 m3 show ?thesis by simp
qed

lemma number_group_int:
  assumes "d1 \<noteq> []" "list_all is_digit d1"
  shows "\<exists>others. items_run number_group d1 = [] # others"
proof -
  from assms(1) obtain c cs where d1: "d1 = c # cs" by (cases d1) auto
  with assms(2) have c: "is_digit c" and cs: "list_all (atom_match Digit) cs"
    by (simp_all add: atom_match_Digit)
  have "\<exists>others. star_run Digit (cs @ []) = [] # others"
    using cs by (intro star_run_greedy) simp_all
  then obtain m1 where m1: "item_run (Plus Digit) d1 = [] # m1"
    using d1 c by auto
  have m3: "items_run [Opt (Lit CHR ''.''), Star Digit] [] = [[]]"
    by simp
  have "items_run number_group d1 =
        concat (map (items_run [Opt (Lit CHR ''.''), Star Digit]) (item_run (Plus Digit) d1))"
    by (simp only: number_group_def items_run.simps(2))
  with m1 m3 show ?thesis by simp
qed

lemma digit_not_minus: "is_digit c \<Longrightarrow> \<not> atom_match (Lit CHR ''-'') c"
  unfolding match_minus by (auto simp: is_digit_def)

lemma pat_any_run:
  assumes "is_digit c"
  shows "items_run (fst pat_any) (c # cs) = items_run number_group (c # cs)"
  using digit_not_minus [OF assms]
  by (simp add: pat_any_def del: atom_match.simps items_run.simps(2) add: items_run.simps(2) [of "Opt (Lit CHR ''-'')"])

lemma match_at_head:
  assumes "items_run (fst p) s = r # others" "snd p = []"
  shows "match_at p s = Some (take (length s - length r) s, r)"
  using assms by (simp add: match_at_def)

lemma pat_any_point:
  assumes "d1 \<noteq> []" "list_all is_digit d1" "list_all is_digit d2" "r = [] \<or> \<not> is_digit (hd r)"
  shows "match_at pat_any (d1 @ CHR ''.'' # d2 @ r) = Some (d1 @ CHR ''.'' # d2, r)"
proof -
  from assms(1,2) obtain c cs where d1: "d1 = c # cs" and c: "is_digit c" by (cases d1) auto
  from number_group_point [OF assms] obtain others
    where "items_run number_group (d1 @ CHR ''.'' # d2 @ r) = r # others" by blast
  with pat_any_run [OF c, of "cs @ CHR ''.'' # d2 @ r"] d1
  have "items_run (fst pat_any) (d1 @ CHR ''.'' # d2 @ r) = r # others" by simp
  from match_at_head [OF this] show ?thesis by (simp add: pat_any_def)
qed

lemma pat_any_int:
  assumes "d1 \<noteq> []" "list_all is_digit d1"
  shows "match_at pat_any d1 = Some (d1, [])"
proof -
  from assms(1,2) obtain c cs where d1: "d1 = c # cs" and c: "is_digit c" by (cases d1) auto
  from number_group_int [OF assms] obtain others
    where "items_run number_group d1 = [] # others" by blast
  with pat_any_run [OF c, of cs] d1
  have "items_run (fst pat_any) d1 = [] # others" by simp
  from match_at_head [OF this] show ?thesis by (simp add: pat_any_def)
qed

lemma pat_any_at_point: "match_at pat_any (CHR ''.'' # s) = None"
  by (simp add: match_at_def pat_any_def number_group_def lower_dot_self lower_minus_self not_digit_dot py_lower_minus)

lemma pat_any_at_end: "match_at pat_any [] = None"
  by (simp add: match_at_def pat_any_def number_group_def)

lemma findall_any_int:
  assumes "d \<noteq> []" "list_all is_digit d"
  shows "findall pat_any d = [d]"
proof -
  from assms(1) obtain c cs where d: "d = c # cs" by (cases d) auto
  have "match_at pat_any (c # cs) = Some (c # cs, [])"
    using pat_any_int [OF assms] d by simp
  then have "findall pat_any (c # cs) = [c # cs]"
    by (simp add: pat_any_at_end)
  with d show ?thesis by simp
qed

lemma findall_any_two_points:
  assumes "a \<noteq> []" "b \<noteq> []" "c \<noteq> []"
    and "list_all is_digit a" "list_all is_digit b" "list_all is_digit c"
  shows "findall pat_any (a @ CHR ''.'' # b @ CHR ''.'' # c) = [a @ CHR ''.'' # b, c]"
proof -
  from assms(1) obtain x xs where a: "a = x # xs" by (cases a) auto
  have m: "match_at pat_any (a @ CHR ''.'' # b @ (CHR ''.'' # c)) = Some (a @ CHR ''.'' # b, CHR ''.'' # c)"
    using assms by (intro pat_any_point) (simp_all add: not_digit_dot)
  have "findall pat_any (x # xs @ CHR ''.'' # b @ CHR ''.'' # c)
        = (a @ CHR ''.'' # b) # findall pat_any (CHR ''.'' # c)"
    using m a by simp
  also have "findall pat_any (CHR ''.'' # c) = findall pat_any c"
    by (simp add: pat_any_at_point)
  also have "\<dots> = [c]" using assms by (intro findall_any_int)
  finally show ?thesis using a by simp
qed

section \<open>Conversion of the captures, texts without a unit\<close>

lemma plain_char_no_unit:
  assumes "is_digit x \<or> x = CHR ''.''"
  shows "\<not> atom_match (Lit CHR ''m'') x" "\<not> atom_match (Lit CHR ''f'') x"
    "\<not> atom_match (Lit degree_sign) x" "\<not> atom_match (Lit CHR ''r'') x"
    "\<not> atom_match (Lit CHR ''/'') x"
  using assms by (auto simp: is_digit_def py_lower_def degree_sign_def)

lemma units_none:
  assumes "\<And>x. x \<in> set t \<Longrightarrow> is_digit x \<or> x = CHR ''.''"
  shows "findall pat_mph t = []" "findall pat_ft t = []" "findall pat_deg t = []"
    "findall pat_rpm t = []" "findall pat_per_s t = []"
proof -
  have no: "\<not> atom_match (Lit l) x"
    if "x \<in> set t" "l \<in> {CHR ''m'', CHR ''f'', degree_sign, CHR ''r'', CHR ''/''}" for x l
    using plain_char_no_unit [OF assms [OF that(1)]] that(2) by blast
  show "findall pat_mph t = []"
    unfolding pat_mph_def by (rule unit_findall_none) (simp add: no del: atom_match.simps)
  show "findall pat_ft t = []"
    unfolding pat_ft_def by (rule unit_findall_none) (simp add: no del: atom_match.simps)
  show "findall pat_deg t = []"
    unfolding pat_deg_def by (rule unit_findall_none) (simp add: no del: atom_match.simps)
  show "findall pat_rpm t = []"
    unfolding pat_rpm_def by (rule unit_findall_none) (simp add: no del: atom_match.simps)
  show "findall pat_per_s t = []"
    unfolding pat_per_s_def by (rule unit_findall_none) (simp add: no del: atom_match.simps)
qed

lemma py_float_digits:
  assumes "d \<noteq> []" "list_all is_digit d"
  shows "py_float d = Inr (of_nat (digits_val d))"
proof -
  from assms obtain x xs where d: "d = x # xs" and x: "is_digit x" by (cases d) auto
  from py_float_digit_head [OF x, of xs] float_abs_digits [OF assms] d show ?thesis by simp
qed

lemma py_float_point:
  assumes "d1 \<noteq> []" "list_all is_digit d1" "list_all is_digit d2"
  shows "py_float (d1 @ CHR ''.'' # d2) =
         Inr (of_nat (digits_val d1) + of_nat (digits_val d2) / 10 ^ length d2)"
proof -
  from assms obtain x xs where d: "d1 = x # xs" and x: "is_digit x" by (cases d1) auto
  from py_float_digit_head [OF x, of "xs @ CHR ''.'' # d2"] float_abs_point [OF assms] d
  show ?thesis by simp
qed

section \<open>Properties of the field mapping and the score\<close>

lemma ipad_result_eq:
  "ipad_result numbers =
     map (\<lambda>(i, field). (field, if i < length numbers then Some (numbers ! i) else None))
         (enumerate 0 ipad_fields)"
  by (simp add: ipad_result_def ipad_fields_def enumerate_eq_zip upt_rec)

lemma oled_confidence_le_one_iff: "oled_confidence numbers \<le> 1 \<longleftrightarrow> length numbers \<le> 4"
  by (simp add: oled_confidence_def)

lemma ipad_confidence_range: "0 \<le> ipad_confidence numbers \<and> ipad_confidence numbers \<le> 1"
  by (simp add: ipad_confidence_def)

lemma ipad_confidence_populated:
  "ipad_confidence numbers = of_nat (min (length numbers) (length ipad_fields)) / of_nat (length ipad_fields)"
  by (simp add: ipad_confidence_def ipad_fields_def min_def)

lemma process_oled_display_reading:
  assumes "process_oled_display env self image_path = Inr (result, raw_text, confidence)"
  shows "result = oled_result (fst (extract_numbers_from_text self raw_text)) \<and>
         confidence = oled_confidence (fst (extract_numbers_from_text self raw_text))"
  using assms by (auto simp: process_oled_display_def Let_def split: sum.splits)

lemma process_ipad_display_reading:
  assumes "process_ipad_display env self image_path = Inr (result, raw_text, confidence)"
  shows "result = ipad_result (fst (extract_numbers_from_text self raw_text)) \<and>
         confidence = ipad_confidence (fst (extract_numbers_from_text self raw_text))"
  using assms by (auto simp: process_ipad_display_def Let_def split: sum.splits)

section \<open>Evaluation on concrete inputs\<close>

lemmas pat_defs = patterns_def pat_mph_def pat_ft_def pat_deg_def pat_rpm_def pat_per_s_def
  pat_any_def number_group_def
lemmas run_defs = match_at_def is_digit_def is_space_def py_lower_def degree_sign_def
lemmas float_defs = float_abs_def digits_val_def digit_val_def
lemmas extract_defs = extract_numbers_from_text_def normalize_text_def str_replace_def append_float_def

section \<open>The numeric-token extractor\<close>

text \<open>
  C4. For every text, the extractor returns the matches of the five unit patterns in the
  order \<open>mph\<close>, \<open>ft\<close>, degree sign, \<open>rpm\<close>, \<open>/s\<close>, then the matches of the generic
  pattern, all over the normalised text, each converted and none removed. So a capture that
  a unit pattern and the generic pattern both produce is in the result at least twice.
\<close>

theorem extract_order_and_duplicates:
  assumes "t = normalize_text text"
    and "units = findall pat_mph t @ findall pat_ft t @ findall pat_deg t @
                 findall pat_rpm t @ findall pat_per_s t"
    and "numbers = fst (extract_numbers_from_text self text)"
  shows "map Inr numbers = map py_float (units @ findall pat_any t) \<and>
         (\<forall>m v. m \<in> set units \<and> m \<in> set (findall pat_any t) \<and> py_float m = Inr v
                \<longrightarrow> 2 \<le> count_list numbers v)"
proof -
  have eq: "map Inr numbers = map py_float (units @ findall pat_any t)"
    using extract_concat [of self "text"] assms by (simp add: patterns_def)
  have "2 \<le> count_list numbers v"
    if m: "m \<in> set units" "m \<in> set (findall pat_any t)" "py_float m = Inr v" for m v
  proof -
    have "count_list (map Inr numbers) (Inr v :: py_exception + rat) = count_list numbers v"
      by (induction numbers) auto
    moreover have "count_list (map py_float (units @ findall pat_any t)) (Inr v)
      = count_list (map py_float units) (Inr v) + count_list (map py_float (findall pat_any t)) (Inr v)"
      by simp
    moreover have "0 < count_list (map py_float units) (Inr v)"
      using m(1,3) by (metis count_list_0_iff image_eqI list.set_map not_gr_zero)
    moreover have "0 < count_list (map py_float (findall pat_any t)) (Inr v)"
      using m(2,3) by (metis count_list_0_iff image_eqI list.set_map not_gr_zero)
    ultimately show ?thesis using eq by simp
  qed
  with eq show ?thesis by blast
qed

theorem extract_order_and_duplicates_witness:
  "map Inr (fst (extract_numbers_from_text init ''85.3 mph'')) = [Inr (853 / 10), Inr (853 / 10) :: py_exception + rat] \<and>
   2 \<le> count_list (fst (extract_numbers_from_text init ''85.3 mph'')) (853 / 10)"
proof -
  have t: "''85.3 mph'' = normalize_text ''85.3 mph''"
    by (simp add: normalize_text_def str_replace_def)
  have u: "[''85.3''] = findall pat_mph ''85.3 mph'' @ findall pat_ft ''85.3 mph'' @
      findall pat_deg ''85.3 mph'' @ findall pat_rpm ''85.3 mph'' @ findall pat_per_s ''85.3 mph''"
    by (simp add: pat_defs run_defs)
  have a: "findall pat_any ''85.3 mph'' = [''85.3'']"
    by (simp add: pat_defs run_defs)
  have f: "py_float ''85.3'' = Inr (853 / 10)"
    by (simp add: float_defs is_digit_def)
  note th = extract_order_and_duplicates [OF t u refl, of init]
  from th have "map Inr (fst (extract_numbers_from_text init ''85.3 mph'')) =
                map py_float ([''85.3''] @ findall pat_any ''85.3 mph'')"
    by (rule conjunct1)
  then have 1: "map Inr (fst (extract_numbers_from_text init ''85.3 mph'')) =
                [Inr (853 / 10), Inr (853 / 10) :: py_exception + rat]"
    by (simp only: a f append.simps list.map)
  from th have "''85.3'' \<in> set [''85.3''] \<and> ''85.3'' \<in> set (findall pat_any ''85.3 mph'') \<and>
                py_float ''85.3'' = Inr (853 / 10)
                \<longrightarrow> 2 \<le> count_list (fst (extract_numbers_from_text init ''85.3 mph'')) (853 / 10)"
    by blast
  then have 2: "2 \<le> count_list (fst (extract_numbers_from_text init ''85.3 mph'')) (853 / 10)"
    by (simp only: a f list.set_intros(1) simp_thms)
  from 1 2 show ?thesis by (rule conjI)
qed

text \<open>
  C10. For every text, each capture of each of the six patterns converts to a number, so
  the branch for \<open>ValueError\<close> is never taken: the result has one element for each
  match, and the extractor, a total function, never raises.
\<close>

theorem captures_convert:
  "(\<forall>p\<in>set patterns. \<forall>m\<in>set (findall p t). \<exists>v. py_float m = Inr v) \<and>
   length (fst (extract_numbers_from_text self text)) =
     (\<Sum>p\<leftarrow>patterns. length (findall p (normalize_text text)))"
proof -
  have "length (map (Inr :: rat \<Rightarrow> py_exception + rat) (fst (extract_numbers_from_text self text))) =
        length (concat (map (\<lambda>p. map py_float (findall p (normalize_text text))) patterns))"
    by (simp only: extract_concat)
  then have "length (fst (extract_numbers_from_text self text)) =
     (\<Sum>p\<leftarrow>patterns. length (findall p (normalize_text text)))"
    by (simp add: length_concat comp_def)
  then show ?thesis using findall_converts by blast
qed

theorem captures_convert_witness:
  "pat_mph \<in> set patterns \<and> ''112.'' \<in> set (findall pat_mph ''85.3 mph 112.mph'') \<and>
   (\<exists>v. py_float ''112.'' = Inr v) \<and>
   length (fst (extract_numbers_from_text init ''85.3 mph 112.mph'')) = 4"
proof -
  have p: "pat_mph \<in> set patterns" by (simp add: patterns_def)
  have m: "''112.'' \<in> set (findall pat_mph ''85.3 mph 112.mph'')"
    by (simp add: pat_defs run_defs)
  have n: "(\<Sum>p\<leftarrow>patterns. length (findall p (normalize_text ''85.3 mph 112.mph''))) = 4"
    by (simp add: pat_defs run_defs normalize_text_def str_replace_def)
  note th = captures_convert [of "''85.3 mph 112.mph''" init "''85.3 mph 112.mph''"]
  from th p m have c: "\<exists>v. py_float ''112.'' = Inr v" by blast
  from th n have l: "length (fst (extract_numbers_from_text init ''85.3 mph 112.mph'')) = 4"
    by (simp only:)
  from p m c l show ?thesis by blast
qed

text \<open>
  C8. The character normalisation (\<open>O\<close> and \<open>o\<close> to \<open>0\<close>, \<open>l\<close> and \<open>I\<close> to \<open>1\<close>) is
  idempotent: applied to a normalised text it returns the same text.
\<close>

theorem normalize_idempotent: "normalize_text (normalize_text text) = normalize_text text"
  by (simp add: normalize_text_def str_replace_def)

text \<open>
  C9. The extractor is stateless and deterministic: a call leaves the object as it found
  it, the result does not depend on the object or on an earlier call, and the configuration
  string is the one the constructor set.
\<close>

theorem extract_stateless:
  "snd (extract_numbers_from_text self text) = self \<and>
   fst (extract_numbers_from_text self text) = fst (extract_numbers_from_text self' text) \<and>
   fst (extract_numbers_from_text (snd (extract_numbers_from_text self text')) text) =
     fst (extract_numbers_from_text self text) \<and>
   config (snd (extract_numbers_from_text init text)) = config init"
  by (simp add: extract_numbers_from_text_def Let_def)

text \<open>
  C5, as the code has it. A token with two decimal points is not excluded: the generic
  pattern splits it at the second point. For non-empty runs of digits \<open>a\<close>, \<open>b\<close> and
  \<open>c\<close>, the text \<open>a.b.c\<close> yields the two values \<open>a.b\<close> and \<open>c\<close>.
\<close>

theorem two_points_split:
  assumes "a \<noteq> []" "b \<noteq> []" "c \<noteq> []"
    and "list_all is_digit a" "list_all is_digit b" "list_all is_digit c"
  shows "fst (extract_numbers_from_text self (a @ CHR ''.'' # b @ CHR ''.'' # c)) =
         [of_nat (digits_val a) + of_nat (digits_val b) / 10 ^ length b, of_nat (digits_val c)]"
proof -
  let ?t = "a @ CHR ''.'' # b @ CHR ''.'' # c"
  have plain: "\<And>x. x \<in> set ?t \<Longrightarrow> is_digit x \<or> x = CHR ''.''"
    using assms(4-6) by (auto simp: list_all_iff)
  have n: "normalize_text ?t = ?t" using plain by (rule normalize_text_id)
  have "map Inr (fst (extract_numbers_from_text self ?t)) =
        concat (map (\<lambda>p. map py_float (findall p ?t)) patterns)"
    using extract_concat [of self ?t] by (simp only: n)
  also have "\<dots> = map py_float (findall pat_any ?t)"
    using units_none [of ?t, OF plain] by (simp add: patterns_def del: findall.simps)
  also have "\<dots> = [py_float (a @ CHR ''.'' # b), py_float c]"
    using findall_any_two_points [OF assms] by simp
  also have "\<dots> = map Inr [of_nat (digits_val a) + of_nat (digits_val b) / 10 ^ length b,
                              of_nat (digits_val c)]"
    using py_float_point [OF assms(1,4,5)] py_float_digits [OF assms(3,6)] by simp
  finally show ?thesis by (simp add: map_eq_Cons_conv)
qed

theorem two_points_split_witness:
  "fst (extract_numbers_from_text init ''12.5.7'') = [25 / 2, 7]"
proof -
  have d: "''12'' \<noteq> []" "''5'' \<noteq> []" "''7'' \<noteq> []"
    "list_all is_digit ''12''" "list_all is_digit ''5''" "list_all is_digit ''7''"
    by (simp_all add: is_digit_def)
  from two_points_split [OF d, of init] show ?thesis
    by (simp add: digits_val_def digit_val_def)
qed

text \<open>The text \<open>1.2.3\<close> yields the values 1.2 and 3, not the empty list.\<close>

theorem two_points_counterexample:
  "fst (extract_numbers_from_text init ''1.2.3'') = [6 / 5, 3] \<and>
   fst (extract_numbers_from_text init ''1.2.3'') \<noteq> []"
  by (simp add: extract_defs pat_defs run_defs float_defs)

section \<open>Field mapping and confidence score\<close>

text \<open>
  C2. For every numeric sequence, the mapping of each layout has exactly the layout's field
  names as keys, in the declared order and each once, and the i-th field holds the i-th
  element of the sequence when the sequence has more than i elements, and \<open>None\<close>
  otherwise.
\<close>

theorem field_mapping:
  "map fst (oled_result numbers) =
     [''ball_speed'', ''club_head_speed'', ''carry_distance'', ''total_distance''] \<and>
   map snd (oled_result numbers) =
     map (\<lambda>i. if i < length numbers then Some (numbers ! i) else None) [0..<4] \<and>
   map fst (ipad_result numbers) = ipad_fields \<and>
   distinct ipad_fields \<and>
   map snd (ipad_result numbers) =
     map (\<lambda>i. if i < length numbers then Some (numbers ! i) else None) [0..<length ipad_fields]"
proof -
  have 1: "map fst (oled_result numbers) =
     [''ball_speed'', ''club_head_speed'', ''carry_distance'', ''total_distance'']"
    by (simp add: oled_result_def)
  have 2: "map snd (oled_result numbers) =
     map (\<lambda>i. if i < length numbers then Some (numbers ! i) else None) [0..<4]"
    by (simp add: oled_result_def upt_rec numeral_2_eq_2 numeral_3_eq_3)
  have 3: "map fst (ipad_result numbers) = ipad_fields"
    by (simp add: ipad_result_eq enumerate_eq_zip comp_def case_prod_beta)
  have 4: "distinct ipad_fields"
    by (simp add: ipad_fields_def)
  have 5: "map snd (ipad_result numbers) =
     map (\<lambda>i. if i < length numbers then Some (numbers ! i) else None) [0..<length ipad_fields]"
  proof -
    let ?g = "\<lambda>i. if i < length numbers then Some (numbers ! i) else None"
    have "map snd (ipad_result numbers) = map (?g \<circ> fst) (enumerate 0 ipad_fields)"
      by (simp add: ipad_result_eq comp_def case_prod_beta)
    also have "\<dots> = map ?g (map fst (enumerate 0 ipad_fields))"
      by (simp only: map_map)
    also have "\<dots> = map ?g [0..<length ipad_fields]"
      by (simp only: map_fst_enumerate add_0)
    finally show ?thesis .
  qed
  from 1 2 3 4 5 show ?thesis by blast
qed

text \<open>
  C7. For the empty sequence every field of either layout is \<open>None\<close> and the score is 0.
\<close>

theorem empty_sequence:
  "oled_result ([] :: 'a list) =
     [(''ball_speed'', None), (''club_head_speed'', None), (''carry_distance'', None),
      (''total_distance'', None)] \<and>
   oled_confidence ([] :: 'a list) = 0 \<and>
   ipad_result ([] :: 'a list) = map (\<lambda>field. (field, None)) ipad_fields \<and>
   ipad_confidence ([] :: 'a list) = 0"
  by (simp add: oled_result_def oled_confidence_def ipad_result_eq ipad_confidence_def
      enumerate_eq_zip ipad_fields_def upt_rec)

text \<open>
  C1, at a sequence of five numbers. The OLED path returns \<open>len(numbers) / 4.0\<close> with no
  cap: the score is 1.25, above 1. The tablet path caps its score at 1.
\<close>

theorem oled_confidence_above_one:
  "oled_confidence [1, 2, 3, 4, 5 :: rat] = 5 / 4 \<and>
   \<not> oled_confidence [1, 2, 3, 4, 5 :: rat] \<le> 1 \<and>
   ipad_confidence (replicate 17 (0 :: rat)) = 1"
  by (simp add: oled_confidence_def ipad_confidence_def ipad_fields_def)

text \<open>
  C3, at the text \<open>8mph 9mph 7ft\<close>. The sequence has six elements, the four OLED fields
  are all filled, and the OLED score is 1.5, not 1.
\<close>

theorem oled_full_display_confidence:
  "fst (extract_numbers_from_text init ''8mph 9mph 7ft'') = [8, 9, 7, 8, 9, 7] \<and>
   map snd (oled_result (fst (extract_numbers_from_text init ''8mph 9mph 7ft''))) =
     [Some 8, Some 9, Some 7, Some 8] \<and>
   oled_confidence (fst (extract_numbers_from_text init ''8mph 9mph 7ft'')) = 3 / 2"
proof -
  have e: "fst (extract_numbers_from_text init ''8mph 9mph 7ft'') = [8, 9, 7, 8, 9, 7]"
    by (simp add: extract_defs pat_defs run_defs float_defs)
  show ?thesis unfolding e by (simp add: oled_confidence_def oled_result_def)
qed

section \<open>An image that cannot be decoded\<close>

text \<open>
  C6, as the code has it. When the image cannot be decoded, both display methods raise
  OpenCV's \<open>cv2.error\<close>; they return no mapping and no score. The view catches it in
  its handler for every exception, stores it on the shot and answers with the failure
  response; the shot is not marked processed and gets no confidence score.
\<close>

theorem undecodable_image:
  assumes "imread env image_path = None"
  shows "process_oled_display env self image_path = Inl Cv2Error \<and>
         process_ipad_display env self image_path = Inl Cv2Error \<and>
         process_image env display_type image_path sh =
           (Processing_failed Cv2Error, sh\<lparr>processing_errors := Some Cv2Error\<rparr>)"
  using assms
  by (simp add: process_oled_display_def process_ipad_display_def preprocess_image_def
      process_image_def)

theorem undecodable_image_witness:
  "imread no_image_env ''shot.jpg'' = None \<and>
   process_ipad_display no_image_env init ''shot.jpg'' = Inl Cv2Error \<and>
   process_image no_image_env ''oled'' ''shot.jpg''
     \<lparr>float_fields = Map.empty, processed = False, processing_errors = None,
      confidence_score = None\<rparr> =
     (Processing_failed Cv2Error,
      \<lparr>float_fields = Map.empty, processed = False, processing_errors = Some Cv2Error,
       confidence_score = None\<rparr>)"
proof -
  have h: "imread no_image_env ''shot.jpg'' = None" by (simp add: no_image_env_def)
  from undecodable_image [OF h, of init "''oled''"] h show ?thesis by simp
qed

text \<open>
  On an unreadable file the exception raised is \<open>cv2.error\<close>; its class is not
  \<open>ImageDecodeError\<close>.
\<close>

theorem decode_error_counterexample:
  "imread no_image_env ''shot.jpg'' = None \<and>
   process_oled_display no_image_env init ''shot.jpg'' = Inl Cv2Error \<and>
   class_name Cv2Error \<noteq> ''ImageDecodeError''"
  by (simp add: no_image_env_def process_oled_display_def preprocess_image_def class_name_def)

end
